theory Spec2Isabelle
  imports Main "HOL-Library.Sublist"
begin

section \<open>Data model\<close>

text \<open>
  The source is \<^verbatim>\<open>src/utils.ts\<close> together with the \<^verbatim>\<open>Node\<close> interface.

  \<^item> A JavaScript number is a double. The numbers of the model are the finite doubles with
    an integer value, each an \<^typ>\<open>int\<close> (\<open>is_double\<close> below says which integers they are);
    comparisons of such numbers are exact, and the one subtraction of the code rounds as
    double subtraction does (\<open>double_abs_diff\<close>). Fractions, infinities and \<^verbatim>\<open>NaN\<close> stored
    in a field are outside the model. A field or array slot that may be \<^verbatim>\<open>undefined\<close> is an
    \<open>option\<close>, with \<open>None\<close> for \<^verbatim>\<open>undefined\<close>.
  \<^item> A string is a list of code units, \<^typ>\<open>string\<close>.
  \<^item> An object used as a mapping (\<^verbatim>\<open>children\<close>, the tree) is the list of its own entries in
    the order of \<^verbatim>\<open>Object.keys\<close>. An object holds a key once, so the keys of such a list are
    distinct; \<^verbatim>\<open>Object.keys(o).forEach(k => ... o[k] ...)\<close> is an iteration over the entries.
  \<^item> A value of type \<^verbatim>\<open>any\<close> or \<^verbatim>\<open>Function\<close> is a \<open>jsany\<close>, which keeps what the code
    observes of it: its truthiness.
\<close>

datatype jsany =
    JNull
  | JBool bool
  | JNum int
  | JStr string
  | JRef nat  \<comment> \<open>an object or a function, named by a handle\<close>

datatype error = TypeError

datatype node = Node
  (id_of: "string option")
  (parent: "string option")
  (index: "int option")
  (indexRange: "int list option")
  (selectAction: "jsany option")
  (isFocusable: "bool option")
  (isWrapping: "bool option")
  (orientation: "string option")
  (isIndexAlign: "bool option")
  (onLeave: "jsany option")
  (onEnter: "jsany option")
  (activeChild: "string option")
  (children: "(string \<times> node) list option")

type_synonym tree = "(string \<times> node) list"

text \<open>The object literal \<^verbatim>\<open>{}\<close>: a node with every field absent.\<close>

definition emptyNode :: node where
  "emptyNode = Node None None None None None None None None None None None None None"

section \<open>JavaScript primitives used by the code\<close>

text \<open>\<^verbatim>\<open>!!v\<close>: the truthiness of a value; \<^verbatim>\<open>undefined\<close> is falsy.\<close>

fun truthy :: "jsany option \<Rightarrow> bool" where
  "truthy None = False"
| "truthy (Some JNull) = False"
| "truthy (Some (JBool b)) = b"
| "truthy (Some (JNum n)) = (n \<noteq> 0)"
| "truthy (Some (JStr s)) = (s \<noteq> [])"
| "truthy (Some (JRef h)) = True"

text \<open>
  The string a possibly absent string becomes as a property key or as an operand of
  \<^verbatim>\<open>+\<close> with a string: \<^verbatim>\<open>undefined\<close> becomes \<^verbatim>\<open>"undefined"\<close>.
\<close>

fun jsstr :: "string option \<Rightarrow> string" where
  "jsstr None = ''undefined''"
| "jsstr (Some s) = s"

text \<open>\<^verbatim>\<open>a || b\<close> on possibly absent strings: the empty string is falsy.\<close>

fun js_or :: "string option \<Rightarrow> string option \<Rightarrow> string option" where
  "js_or None b = b"
| "js_or (Some s) b = (if s \<noteq> [] then Some s else b)"

text \<open>\<^verbatim>\<open>o[k]\<close> and \<^verbatim>\<open>Object.keys(o)\<close> on a mapping object, \<^verbatim>\<open>a[i]\<close> on an array.\<close>

definition obj_get :: "(string \<times> 'a) list \<Rightarrow> string \<Rightarrow> 'a option" where
  "obj_get o' k = map_of o' k"

definition obj_keys :: "(string \<times> 'a) list \<Rightarrow> string list" where
  "obj_keys o' = map fst o'"

definition arr_get :: "'a list \<Rightarrow> nat \<Rightarrow> 'a option" where
  "arr_get a i = (if i < length a then Some (a ! i) else None)"

text \<open>
  \<^verbatim>\<open>a >= b\<close> and \<^verbatim>\<open>a < b\<close> on numbers that may be \<^verbatim>\<open>undefined\<close> or \<^verbatim>\<open>NaN\<close>
  (both \<open>None\<close>): a comparison with either is false.
\<close>

fun js_ge :: "int option \<Rightarrow> int option \<Rightarrow> bool" where
  "js_ge (Some a) (Some b) = (a \<ge> b)"
| "js_ge _ _ = False"

fun js_le :: "int option \<Rightarrow> int option \<Rightarrow> bool" where
  "js_le (Some a) (Some b) = (a \<le> b)"
| "js_le _ _ = False"

fun js_lt :: "int option \<Rightarrow> int option \<Rightarrow> bool" where
  "js_lt (Some a) (Some b) = (a < b)"
| "js_lt _ _ = False"

text \<open>
  Rounding to a double. A double has 53 significant bits: a magnitude with more bits is
  rounded to the nearest multiple of \<open>2 ^ s\<close>, where \<open>s\<close> is the number of bits beyond 53, and a
  magnitude half way between two multiples goes to the one with the even quotient.
  \<open>bitlen m\<close> is the number of bits of \<open>m\<close>.
\<close>

function bitlen :: "int \<Rightarrow> nat" where
  "bitlen m = (if m \<le> 0 then 0 else Suc (bitlen (m div 2)))"
  by pat_completeness auto
termination
  by (relation "measure nat") simp_all

declare bitlen.simps [simp del]

definition round53 :: "int \<Rightarrow> int" where
  "round53 m =
     (let n = bitlen m in
      if n \<le> 53 then m
      else
        (let s = n - 53; q = m div 2 ^ s; r = m mod 2 ^ s; half = 2 ^ (s - 1)
         in (if half < r \<or> (r = half \<and> q mod 2 = 1) then q + 1 else q) * 2 ^ s))"

text \<open>
  \<^verbatim>\<open>Math.abs(a - b)\<close> on two numbers of the model: the exact difference, rounded. A result
  that rounds to \<open>2 ^ 1024\<close> or more is \<^verbatim>\<open>Infinity\<close>, which is represented by \<open>2 ^ 1024\<close>: it
  is above every finite double and equal to itself, as \<^verbatim>\<open>Infinity\<close> is under \<^verbatim>\<open><\<close>.
\<close>

definition double_abs_diff :: "int \<Rightarrow> int \<Rightarrow> int" where
  "double_abs_diff a b = min (round53 \<bar>a - b\<bar>) (2 ^ 1024)"


text \<open>
  \<^verbatim>\<open>Math.abs(v - goal)\<close> where \<open>v\<close> may be \<^verbatim>\<open>undefined\<close>; \<open>None\<close> is \<^verbatim>\<open>NaN\<close>, the result
  for an \<^verbatim>\<open>undefined\<close> \<open>v\<close>.
\<close>

fun abs_diff :: "int option \<Rightarrow> int \<Rightarrow> int option" where
  "abs_diff (Some v) goal = Some (double_abs_diff v goal)"
| "abs_diff None goal = None"

section \<open>Closest\<close>

text \<open>
  The callback of \<^verbatim>\<open>values.reduce\<close>, and the reduction without an initial value: it
  starts from the first element, and raises a \<^verbatim>\<open>TypeError\<close> on an empty array.
\<close>

definition closer :: "int \<Rightarrow> int option \<Rightarrow> int option \<Rightarrow> int option" where
  "closer goal prev cur = (if js_lt (abs_diff cur goal) (abs_diff prev goal) then cur else prev)"

fun Closest :: "int option list \<Rightarrow> int \<Rightarrow> error + int option" where
  "Closest [] goal = Inl TypeError"
| "Closest (v # vs) goal = Inr (foldl (closer goal) v vs)"

section \<open>isNodeFocusable\<close>

definition isNodeFocusable :: "node \<Rightarrow> bool" where
  "isNodeFocusable n =
     (case isFocusable n of Some b \<Rightarrow> b | None \<Rightarrow> truthy (selectAction n))"

section \<open>isNodeInPath\<close>

text \<open>
  \<^verbatim>\<open>String.prototype.indexOf(t, pos)\<close> and \<^verbatim>\<open>lastIndexOf(t, pos)\<close>: the position is
  clamped to the string; \<open>indexOf\<close> gives the first occurrence at or after it,
  \<open>lastIndexOf\<close> the last occurrence at or before it, and both give \<open>-1\<close> when there is none.
\<close>

definition occurs_at :: "string \<Rightarrow> string \<Rightarrow> nat \<Rightarrow> bool" where
  "occurs_at s t k = (k + length t \<le> length s \<and> take (length t) (drop k s) = t)"

definition indexOf :: "string \<Rightarrow> string \<Rightarrow> int \<Rightarrow> int" where
  "indexOf s t pos =
     (let start = nat (min (max pos 0) (int (length s)))
      in case find (occurs_at s t) [start ..< Suc (length s)] of
           Some k \<Rightarrow> int k
         | None \<Rightarrow> - 1)"

definition lastIndexOf :: "string \<Rightarrow> string \<Rightarrow> int \<Rightarrow> int" where
  "lastIndexOf s t pos =
     (let start = nat (min (max pos 0) (int (length s)))
      in case find (occurs_at s t) (rev [0 ..< Suc start]) of
           Some k \<Rightarrow> int k
         | None \<Rightarrow> - 1)"

definition isNodeInPath :: "string \<Rightarrow> node \<Rightarrow> bool" where
  "isNodeInPath path n =
     (if lastIndexOf path (jsstr (id_of n) @ ''.'') 0 = 0 then True
      else
        (let suffix_str = ''.'' @ jsstr (id_of n) in
         if indexOf path suffix_str (int (length path) - int (length suffix_str)) \<noteq> - 1 then True
         else if indexOf path (''.'' @ jsstr (id_of n) @ ''.'') 0 \<noteq> - 1 then True
         else False))"

section \<open>The index resolver\<close>

text \<open>\<^verbatim>\<open>node.children[childId].children\<close> as a condition: an object, even an empty one, is truthy.\<close>

definition hasChildren :: "node \<Rightarrow> bool" where
  "hasChildren n = (case children n of None \<Rightarrow> False | Some cs \<Rightarrow> True)"

text \<open>
  \<^verbatim>\<open>_findChildWithIndex\<close>. \<open>find\<close> gives the first entry whose node has the index; the
  condition \<^verbatim>\<open>if (childIdWithMatchingIndex)\<close> is the truthiness of the key found, and the
  empty string is falsy. \<open>None\<close> is \<^verbatim>\<open>null\<close>.
\<close>

definition findChildWithIndex :: "node \<Rightarrow> int option \<Rightarrow> node option" where
  "findChildWithIndex n idx =
     (case children n of
        None \<Rightarrow> None
      | Some cs \<Rightarrow>
          (case find (\<lambda>(childId, childNode). index childNode = idx) cs of
             Some (childId, childNode) \<Rightarrow> (if childId \<noteq> [] then Some childNode else None)
           | None \<Rightarrow> None))"

text \<open>
  The condition of the shortcut in \<^verbatim>\<open>_findChildWithClosestIndex\<close>, on the looked up
  \<^verbatim>\<open>activeChild\<close>, and the array \<^verbatim>\<open>indexes\<close> of the candidates.
\<close>

definition activeChildInRange :: "node option \<Rightarrow> int list option \<Rightarrow> bool" where
  "activeChildInRange ac rng =
     (case rng of
        None \<Rightarrow> False
      | Some r \<Rightarrow>
          (case ac of
             None \<Rightarrow> False
           | Some a \<Rightarrow> js_ge (index a) (arr_get r 0) \<and> js_le (index a) (arr_get r 1)
                        \<and> isNodeFocusable a))"

definition candidateIndexes :: "(string \<times> node) list \<Rightarrow> int option list" where
  "candidateIndexes cs =
     map (\<lambda>(childId, c). index c)
       (filter (\<lambda>(childId, c). isNodeFocusable c \<or> hasChildren c) cs)"

text \<open>
  \<^verbatim>\<open>_findChildWithClosestIndex\<close>. The result is \<open>Inr\<close> of the node returned (\<open>None\<close> for
  \<^verbatim>\<open>null\<close>), or \<open>Inl\<close> of the error that \<open>Closest\<close> raises.
\<close>

definition findChildWithClosestIndex :: "node \<Rightarrow> int \<Rightarrow> int list option \<Rightarrow> error + node option" where
  "findChildWithClosestIndex n idx rng =
     (case children n of
        None \<Rightarrow> Inr None
      | Some cs \<Rightarrow>
          (let ac = obj_get cs (jsstr (activeChild n)) in
           if activeChildInRange ac rng then Inr ac
           else
             (let indexes = candidateIndexes cs in
              if length indexes \<le> 0 then Inr None
              else (case Closest indexes idx of
                      Inl e \<Rightarrow> Inl e
                    | Inr v \<Rightarrow> Inr (findChildWithIndex n v)))))"

section \<open>isNodeInTree\<close>

text \<open>
  The inner function mutates the captured variable \<^verbatim>\<open>nodeInTree\<close>; the model passes it
  through the walk.
\<close>

function (sequential) isNodeInTree_walk :: "string \<Rightarrow> tree \<Rightarrow> bool \<Rightarrow> bool" where
  "isNodeInTree_walk nodeId [] nodeInTree = nodeInTree"
| "isNodeInTree_walk nodeId ((treeProperty, n) # rest) nodeInTree =
     (let nodeInTree1 = (if nodeId = treeProperty then True else nodeInTree);
          nodeInTree2 = (case children n of
                           Some cs \<Rightarrow> isNodeInTree_walk nodeId cs nodeInTree1
                         | None \<Rightarrow> nodeInTree1)
      in isNodeInTree_walk nodeId rest nodeInTree2)"
  by pat_completeness auto
termination
proof (relation "measure (\<lambda>(nodeId, t, b). size_list (size_prod (\<lambda>_. 0) size) t)")
  fix nodeId :: string and treeProperty :: string and n rest and nodeInTree x :: bool and x2
  assume "children n = Some x2"
  then have "size_list (size_prod (\<lambda>_. 0) size) x2 < size n"
    by (cases n) simp
  then show "((nodeId, x2, x), (nodeId, (treeProperty, n) # rest, nodeInTree))
      \<in> measure (\<lambda>(nodeId, t, b). size_list (size_prod (\<lambda>_. 0) size) t)"
    by simp
qed simp_all

definition isNodeInTree :: "string \<Rightarrow> tree \<Rightarrow> bool" where
  "isNodeInTree nodeId t = isNodeInTree_walk nodeId t False"

text \<open>
  The same walk with a log of the keys the callback of \<^verbatim>\<open>forEach\<close> is called with, in the
  order of the calls. The log is not in the source: it is what the walk visits.
\<close>

function (sequential) isNodeInTree_visit ::
  "string \<Rightarrow> tree \<Rightarrow> bool \<times> string list \<Rightarrow> bool \<times> string list" where
  "isNodeInTree_visit nodeId [] st = st"
| "isNodeInTree_visit nodeId ((treeProperty, n) # rest) st =
     (let st1 = ((if nodeId = treeProperty then True else fst st), snd st @ [treeProperty]);
          st2 = (case children n of
                   Some cs \<Rightarrow> isNodeInTree_visit nodeId cs st1
                 | None \<Rightarrow> st1)
      in isNodeInTree_visit nodeId rest st2)"
  by pat_completeness auto
termination
proof (relation "measure (\<lambda>(nodeId, t, st). size_list (size_prod (\<lambda>_. 0) size) t)")
  fix nodeId :: string and treeProperty :: string and n rest
    and st x :: "bool \<times> string list" and x2
  assume "children n = Some x2"
  then have "size_list (size_prod (\<lambda>_. 0) size) x2 < size n"
    by (cases n) simp
  then show "((nodeId, x2, x), (nodeId, (treeProperty, n) # rest, st))
      \<in> measure (\<lambda>(nodeId, t, st). size_list (size_prod (\<lambda>_. 0) size) t)"
    by simp
qed simp_all

section \<open>getNodesFromTree\<close>

text \<open>
  The object pushed for a node:
  \<^verbatim>\<open>{...tree[treeProperty], id: treeProperty, children: undefined, parent: _parent}\<close>.
\<close>

definition flatRecord :: "string \<Rightarrow> string option \<Rightarrow> node \<Rightarrow> node" where
  "flatRecord treeProperty parent' n =
     Node (Some treeProperty) parent' (index n) (indexRange n) (selectAction n) (isFocusable n)
       (isWrapping n) (orientation n) (isIndexAlign n) (onLeave n) (onEnter n) (activeChild n)
       None"

text \<open>The inner function pushes onto the captured array \<^verbatim>\<open>nodes\<close>, passed through the walk.\<close>

function (sequential) getNodesFromTree_walk ::
  "tree \<Rightarrow> string option \<Rightarrow> node list \<Rightarrow> node list" where
  "getNodesFromTree_walk [] parent' nodes = nodes"
| "getNodesFromTree_walk ((treeProperty, n) # rest) parent' nodes =
     (let parent1 = js_or (parent n) parent';
          nodes1 = nodes @ [flatRecord treeProperty parent1 n];
          nodes2 = (case children n of
                      Some cs \<Rightarrow> getNodesFromTree_walk cs (Some treeProperty) nodes1
                    | None \<Rightarrow> nodes1)
      in getNodesFromTree_walk rest parent' nodes2)"
  by pat_completeness auto
termination
proof (relation "measure (\<lambda>(t, p, ns). size_list (size_prod (\<lambda>_. 0) size) t)")
  fix treeProperty :: string and n rest and parent' x :: "string option"
    and nodes xa :: "node list" and x2
  assume "children n = Some x2"
  then have "size_list (size_prod (\<lambda>_. 0) size) x2 < size n"
    by (cases n) simp
  then show "((x2, Some treeProperty, xa), ((treeProperty, n) # rest, parent', nodes))
      \<in> measure (\<lambda>(t, p, ns). size_list (size_prod (\<lambda>_. 0) size) t)"
    by simp
qed simp_all

definition getNodesFromTree :: "tree \<Rightarrow> node list" where
  "getNodesFromTree t = getNodesFromTree_walk t None []"

section \<open>Building example nodes\<close>

text \<open>One field of an object literal at a time: \<^verbatim>\<open>{...n, field: v}\<close>.\<close>

definition withId :: "string \<Rightarrow> node \<Rightarrow> node" where
  "withId v n = Node (Some v) (parent n) (index n) (indexRange n) (selectAction n) (isFocusable n)
     (isWrapping n) (orientation n) (isIndexAlign n) (onLeave n) (onEnter n) (activeChild n)
     (children n)"

definition withParent :: "string \<Rightarrow> node \<Rightarrow> node" where
  "withParent v n = Node (id_of n) (Some v) (index n) (indexRange n) (selectAction n) (isFocusable n)
     (isWrapping n) (orientation n) (isIndexAlign n) (onLeave n) (onEnter n) (activeChild n)
     (children n)"

definition withIndex :: "int \<Rightarrow> node \<Rightarrow> node" where
  "withIndex v n = Node (id_of n) (parent n) (Some v) (indexRange n) (selectAction n) (isFocusable n)
     (isWrapping n) (orientation n) (isIndexAlign n) (onLeave n) (onEnter n) (activeChild n)
     (children n)"

definition withSelectAction :: "jsany \<Rightarrow> node \<Rightarrow> node" where
  "withSelectAction v n = Node (id_of n) (parent n) (index n) (indexRange n) (Some v) (isFocusable n)
     (isWrapping n) (orientation n) (isIndexAlign n) (onLeave n) (onEnter n) (activeChild n)
     (children n)"

definition withIsFocusable :: "bool \<Rightarrow> node \<Rightarrow> node" where
  "withIsFocusable v n = Node (id_of n) (parent n) (index n) (indexRange n) (selectAction n) (Some v)
     (isWrapping n) (orientation n) (isIndexAlign n) (onLeave n) (onEnter n) (activeChild n)
     (children n)"

definition withActiveChild :: "string \<Rightarrow> node \<Rightarrow> node" where
  "withActiveChild v n = Node (id_of n) (parent n) (index n) (indexRange n) (selectAction n)
     (isFocusable n) (isWrapping n) (orientation n) (isIndexAlign n) (onLeave n) (onEnter n) (Some v)
     (children n)"

definition withChildren :: "(string \<times> node) list \<Rightarrow> node \<Rightarrow> node" where
  "withChildren v n = Node (id_of n) (parent n) (index n) (indexRange n) (selectAction n)
     (isFocusable n) (isWrapping n) (orientation n) (isIndexAlign n) (onLeave n) (onEnter n)
     (activeChild n) (Some v)"

lemmas with_defs = withId_def withParent_def withIndex_def withSelectAction_def
  withIsFocusable_def withActiveChild_def withChildren_def emptyNode_def

section \<open>Reference traversals\<close>

text \<open>
  What the two walkers are compared with: the keys of the recursive tree in depth-first
  pre-order, and the same listing with each node and the key of the node whose
  \<^verbatim>\<open>children\<close> hold it (\<open>None\<close> at the root level).
\<close>

function (sequential) preorderKeys :: "tree \<Rightarrow> string list" where
  "preorderKeys [] = []"
| "preorderKeys ((k, n) # rest) =
     k # (case children n of Some cs \<Rightarrow> preorderKeys cs | None \<Rightarrow> []) @ preorderKeys rest"
  by pat_completeness auto
termination
proof (relation "measure (size_list (size_prod (\<lambda>_. 0) size))")
  fix k :: string and n rest x2
  assume "children n = Some x2"
  then have "size_list (size_prod (\<lambda>_. 0) size) x2 < size n"
    by (cases n) simp
  then show "(x2, (k, n) # rest) \<in> measure (size_list (size_prod (\<lambda>_. 0) size))"
    by simp
qed simp_all

function (sequential) preorderNodes :: "tree \<Rightarrow> string option \<Rightarrow> (string \<times> string option \<times> node) list" where
  "preorderNodes [] p = []"
| "preorderNodes ((k, n) # rest) p =
     (k, p, n) # (case children n of Some cs \<Rightarrow> preorderNodes cs (Some k) | None \<Rightarrow> [])
       @ preorderNodes rest p"
  by pat_completeness auto
termination
proof (relation "measure (\<lambda>(t, p). size_list (size_prod (\<lambda>_. 0) size) t)")
  fix k :: string and n rest x2 and p :: "string option"
  assume "children n = Some x2"
  then have "size_list (size_prod (\<lambda>_. 0) size) x2 < size n"
    by (cases n) simp
  then show "((x2, Some k), ((k, n) # rest, p))
      \<in> measure (\<lambda>(t, p). size_list (size_prod (\<lambda>_. 0) size) t)"
    by simp
qed simp_all

text \<open>
  The record that the flattening produces for an entry of \<open>preorderNodes\<close>: the fields of
  the node, the key as \<^verbatim>\<open>id\<close>, no \<^verbatim>\<open>children\<close>, and as \<^verbatim>\<open>parent\<close> the node's own
  \<^verbatim>\<open>parent\<close> when it is a non-empty string, otherwise the key of the node above.
\<close>

definition flatRecordOf :: "string \<times> string option \<times> node \<Rightarrow> node" where
  "flatRecordOf e =
     (case e of (k, sp, n) \<Rightarrow>
        flatRecord k (case parent n of
                        Some s \<Rightarrow> (if s \<noteq> [] then Some s else sp)
                      | None \<Rightarrow> sp) n)"

section \<open>Example nodes and trees\<close>

text \<open>
  \<^verbatim>\<open>{activeChild: "a", children: {a: {index: 0, selectAction: fn}, b: {index: 5, selectAction: fn}}}\<close>
\<close>

definition exShortcut :: node where
  "exShortcut =
     withActiveChild ''a''
       (withChildren
          [(''a'', withIndex 0 (withSelectAction (JRef 0) emptyNode)),
           (''b'', withIndex 5 (withSelectAction (JRef 0) emptyNode))]
          emptyNode)"

text \<open>\<^verbatim>\<open>{children: {"": {index: 0, selectAction: fn}}}\<close>: the key of the child is the empty string.\<close>

definition exEmptyKey :: node where
  "exEmptyKey = withChildren [('''', withIndex 0 (withSelectAction (JRef 0) emptyNode))] emptyNode"

text \<open>\<^verbatim>\<open>{children: {a: {index: 0, selectAction: fn}}}\<close>\<close>

definition exOneChild :: node where
  "exOneChild = withChildren [(''a'', withIndex 0 (withSelectAction (JRef 0) emptyNode))] emptyNode"

text \<open>\<^verbatim>\<open>{children: {a: {index: 0}, b: {index: 0, selectAction: fn}}}\<close>\<close>

definition exSharedIndex :: node where
  "exSharedIndex =
     withChildren
       [(''a'', withIndex 0 emptyNode),
        (''b'', withIndex 0 (withSelectAction (JRef 0) emptyNode))]
       emptyNode"

text \<open>
  The trees \<^verbatim>\<open>{a: {children: {b: {}}}}\<close>, \<^verbatim>\<open>{a: {index: 0, children: {b: {index: 0}}}}\<close> and
  \<^verbatim>\<open>{a: {children: {b: {parent: ""}}}}\<close>.
\<close>

definition exNested :: tree where
  "exNested = [(''a'', withChildren [(''b'', emptyNode)] emptyNode)]"

definition exIndexed :: tree where
  "exIndexed = [(''a'', withChildren [(''b'', withIndex 0 emptyNode)] (withIndex 0 emptyNode))]"

definition exEmptyParent :: tree where
  "exEmptyParent = [(''a'', withChildren [(''b'', withParent '''' emptyNode)] emptyNode)]"

section \<open>Objects as lists of entries\<close>

text \<open>
  With distinct keys, looking up each key of \<^verbatim>\<open>Object.keys(o)\<close> in \<open>o\<close> gives the entries
  of the list, in order: the iteration over entries is the iteration of the source.
\<close>

lemma obj_entries:
  "distinct (obj_keys ob) \<Longrightarrow>
     map (\<lambda>k. (k, obj_get ob k)) (obj_keys ob) = map (\<lambda>(k, v). (k, Some v)) ob"
proof (induction ob)
  case Nil
  show ?case by (simp add: obj_keys_def)
next
  case (Cons e ob)
  obtain k v where e: "e = (k, v)" by (cases e)
  from Cons.prems e have nk: "k \<notin> set (obj_keys ob)" and d: "distinct (obj_keys ob)"
    by (simp_all add: obj_keys_def)
  have "map (\<lambda>k'. (k', obj_get (e # ob) k')) (obj_keys ob)
      = map (\<lambda>k'. (k', obj_get ob k')) (obj_keys ob)"
    using nk e by (auto simp: obj_get_def)
  with Cons.IH [OF d] e show ?case by (simp add: obj_keys_def obj_get_def)
qed

section \<open>Path membership\<close>

lemma find_index_found:
  "((case find P xs of Some k \<Rightarrow> int k | None \<Rightarrow> - 1) \<noteq> - 1) = (\<exists>k\<in>set xs. P k)"
proof (cases "find P xs")
  case None
  then have "\<not> (\<exists>k\<in>set xs. P k)" by (simp add: find_None_iff)
  with None show ?thesis by simp
next
  case (Some k)
  then have "k \<in> set xs \<and> P k" by (auto simp: find_Some_iff)
  with Some show ?thesis by auto
qed

lemma occurs_at_0: "occurs_at s t 0 = prefix t s"
proof
  assume "occurs_at s t 0"
  then have "take (length t) s = t" by (simp add: occurs_at_def)
  then show "prefix t s" by (metis take_is_prefix)
next
  assume "prefix t s"
  then obtain r where "s = t @ r" by (auto simp: prefix_def)
  then show "occurs_at s t 0" by (simp add: occurs_at_def)
qed

lemma lastIndexOf_0: "(lastIndexOf s t 0 = 0) = prefix t s"
  by (simp add: lastIndexOf_def occurs_at_0 split: option.splits)

lemma occurs_at_sublist: "(\<exists>k. occurs_at s t k) = sublist t s"
proof
  assume "\<exists>k. occurs_at s t k"
  then obtain k where k: "k + length t \<le> length s" "take (length t) (drop k s) = t"
    by (auto simp: occurs_at_def)
  have "s = take k s @ take (length t) (drop k s) @ drop (length t) (drop k s)"
    by (simp only: append_take_drop_id)
  with k(2) have "s = take k s @ t @ drop (length t) (drop k s)" by simp
  then show "sublist t s" unfolding sublist_def by blast
next
  assume "sublist t s"
  then obtain ps ss where "s = ps @ t @ ss" unfolding sublist_def by blast
  then have "occurs_at s t (length ps)" by (simp add: occurs_at_def)
  then show "\<exists>k. occurs_at s t k" ..
qed

lemma occurs_at_bound: "occurs_at s t k \<Longrightarrow> k \<le> length s"
  by (simp add: occurs_at_def)

lemma indexOf_0: "(indexOf s t 0 \<noteq> - 1) = sublist t s"
proof -
  have "(indexOf s t 0 \<noteq> - 1) = (\<exists>k\<in>set [0 ..< Suc (length s)]. occurs_at s t k)"
    by (simp add: indexOf_def find_index_found)
  also have "\<dots> = (\<exists>k. occurs_at s t k)"
    using occurs_at_bound by fastforce
  finally show ?thesis by (simp add: occurs_at_sublist)
qed

lemma occurs_at_end: "length t \<le> length s \<Longrightarrow> occurs_at s t (length s - length t) = suffix t s"
proof
  assume le: "length t \<le> length s" and "occurs_at s t (length s - length t)"
  then have "drop (length s - length t) s = t" by (simp add: occurs_at_def)
  then show "suffix t s" by (metis suffix_drop)
next
  assume "length t \<le> length s" and "suffix t s"
  then obtain r where "s = r @ t" by (auto simp: suffix_def)
  then show "occurs_at s t (length s - length t)" by (simp add: occurs_at_def)
qed

lemma indexOf_end:
  "(indexOf s t (int (length s) - int (length t)) \<noteq> - 1) = suffix t s"
proof (cases "length t \<le> length s")
  case True
  let ?st = "length s - length t"
  have st: "nat (min (max (int (length s) - int (length t)) 0) (int (length s))) = ?st"
    using True by simp
  have "(indexOf s t (int (length s) - int (length t)) \<noteq> - 1)
      = (\<exists>k\<in>set [?st ..< Suc (length s)]. occurs_at s t k)"
    unfolding indexOf_def st Let_def by (rule find_index_found)
  also have "\<dots> = occurs_at s t ?st"
  proof
    assume "\<exists>k\<in>set [?st ..< Suc (length s)]. occurs_at s t k"
    then obtain k where "?st \<le> k" "occurs_at s t k" by (auto simp del: upt_Suc)
    moreover from this have "k + length t \<le> length s" by (simp add: occurs_at_def)
    ultimately have "k = ?st" by arith
    with \<open>occurs_at s t k\<close> show "occurs_at s t ?st" by simp
  next
    assume "occurs_at s t ?st"
    moreover have "?st \<in> set [?st ..< Suc (length s)]" by (simp del: upt_Suc)
    ultimately show "\<exists>k\<in>set [?st ..< Suc (length s)]. occurs_at s t k" by blast
  qed
  finally show ?thesis using True by (simp add: occurs_at_end)
next
  case False
  then have "\<not> suffix t s" by (auto simp: suffix_def)
  moreover have "\<And>k. \<not> occurs_at s t k" using False by (simp add: occurs_at_def)
  then have "\<not> (indexOf s t (int (length s) - int (length t)) \<noteq> - 1)"
    unfolding indexOf_def Let_def find_index_found by blast
  ultimately show ?thesis by simp
qed

lemma isNodeInPath_iff: 
  "isNodeInPath path n =
     (prefix (jsstr (id_of n) @ ''.'') path \<or> suffix (''.'' @ jsstr (id_of n)) path
      \<or> sublist (''.'' @ jsstr (id_of n) @ ''.'') path)"
  unfolding isNodeInPath_def Let_def lastIndexOf_0 indexOf_0 indexOf_end by simp

text \<open>
  Claim C7. \<open>isNodeInPath path n\<close> is true exactly when the path starts with the id followed
  by a dot, ends with a dot followed by the id, or contains the id between two dots; for the
  path \<^verbatim>\<open>root.a.b\<close> it is true for the ids \<^verbatim>\<open>root\<close>, \<^verbatim>\<open>a\<close>, \<^verbatim>\<open>b\<close> and false for
  \<^verbatim>\<open>c\<close>.
\<close>

theorem isNodeInPath_segments:
  "isNodeInPath path n =
     (prefix (jsstr (id_of n) @ ''.'') path
      \<or> suffix (''.'' @ jsstr (id_of n)) path
      \<or> sublist (''.'' @ jsstr (id_of n) @ ''.'') path)
   \<and> isNodeInPath ''root.a.b'' (withId ''root'' emptyNode)
   \<and> isNodeInPath ''root.a.b'' (withId ''a'' emptyNode)
   \<and> isNodeInPath ''root.a.b'' (withId ''b'' emptyNode)
   \<and> \<not> isNodeInPath ''root.a.b'' (withId ''c'' emptyNode)"
proof -
  have ex1: "isNodeInPath ''root.a.b'' (withId ''root'' emptyNode)" by code_simp
  have ex2: "isNodeInPath ''root.a.b'' (withId ''a'' emptyNode)" by code_simp
  have ex3: "isNodeInPath ''root.a.b'' (withId ''b'' emptyNode)" by code_simp
  have ex4: "\<not> isNodeInPath ''root.a.b'' (withId ''c'' emptyNode)" by code_simp
  show ?thesis using isNodeInPath_iff ex1 ex2 ex3 ex4 by blast
qed

text \<open>
  Claim C10. A path that is exactly the non-empty id of the node, with no dot, does not
  match: \<open>isNodeInPath\<close> is false.
\<close>

theorem isNodeInPath_single_segment:
  "i \<noteq> [] \<Longrightarrow> id_of n = Some i \<Longrightarrow> \<not> isNodeInPath i n"
proof -
  assume "i \<noteq> []" and i: "id_of n = Some i"
  have "\<not> prefix (i @ ''.'') i" by (auto simp: prefix_def)
  moreover have "\<not> suffix (''.'' @ i) i" by (auto simp: suffix_def)
  moreover have "\<not> sublist (''.'' @ i @ ''.'') i"
  proof
    assume "sublist (''.'' @ i @ ''.'') i"
    then have "length (''.'' @ i @ ''.'') \<le> length i" by (rule sublist_length_le)
    then show False by simp
  qed
  ultimately show ?thesis using i by (simp add: isNodeInPath_iff)
qed

theorem isNodeInPath_single_segment_witness:
  "''root'' \<noteq> [] \<and> id_of (withId ''root'' emptyNode) = Some ''root''
   \<and> \<not> isNodeInPath ''root'' (withId ''root'' emptyNode)"
  using isNodeInPath_single_segment [of "''root''" "withId ''root'' emptyNode"]
  by (simp add: withId_def)

section \<open>Focusability\<close>

text \<open>
  Claim C6. \<open>isNodeFocusable\<close> gives \<^verbatim>\<open>isFocusable\<close> when that field is set, so that an
  explicit \<^verbatim>\<open>false\<close> wins over a \<^verbatim>\<open>selectAction\<close>; otherwise it gives \<^verbatim>\<open>selectAction\<close>
  coerced to a boolean. With \<open>fn\<close> a function:
  \<^verbatim>\<open>{isFocusable: false, selectAction: fn}\<close> is not focusable, \<^verbatim>\<open>{selectAction: fn}\<close> is,
  \<^verbatim>\<open>{}\<close> is not.
\<close>

theorem isNodeFocusable_spec:
  "(isFocusable n = Some b \<longrightarrow> isNodeFocusable n = b)
   \<and> (isFocusable n = None \<longrightarrow> isNodeFocusable n = truthy (selectAction n))
   \<and> isNodeFocusable (withIsFocusable False (withSelectAction (JRef fn) emptyNode)) = False
   \<and> isNodeFocusable (withSelectAction (JRef fn) emptyNode) = True
   \<and> isNodeFocusable emptyNode = False"
  by (simp add: isNodeFocusable_def with_defs)

theorem isNodeFocusable_spec_witness:
  "isFocusable (withIsFocusable False (withSelectAction (JRef 0) emptyNode)) = Some False
   \<and> isNodeFocusable (withIsFocusable False (withSelectAction (JRef 0) emptyNode)) = False
   \<and> isFocusable (withSelectAction (JRef 0) emptyNode) = None
   \<and> isNodeFocusable (withSelectAction (JRef 0) emptyNode)
       = truthy (selectAction (withSelectAction (JRef 0) emptyNode))"
  using isNodeFocusable_spec [of "withIsFocusable False (withSelectAction (JRef 0) emptyNode)" False 0]
    isNodeFocusable_spec [of "withSelectAction (JRef 0) emptyNode" False 0]
  by (simp add: with_defs)

section \<open>The nearest value\<close>

lemma bitlen_le: "(bitlen m \<le> k) = (m < 2 ^ k)"
proof (induction k arbitrary: m)
  case 0
  show ?case by (subst bitlen.simps) auto
next
  case (Suc k)
  have "(bitlen m \<le> Suc k) = (m \<le> 0 \<or> bitlen (m div 2) \<le> k)"
    by (subst bitlen.simps) simp
  also have "\<dots> = (m \<le> 0 \<or> m div 2 < 2 ^ k)" by (simp only: Suc.IH)
  also have "\<dots> = (m < 2 ^ Suc k)"
  proof -
    have pos: "(0::int) < 2 ^ Suc k" by simp
    have "(m div 2 < n) = (m < 2 * n)" for n :: int by presburger
    then have eq: "(m div 2 < 2 ^ k) = (m < 2 ^ Suc k)" by simp
    show ?thesis
    proof (cases "m \<le> 0")
      case True
      from True pos have "m < 2 ^ Suc k" by (rule le_less_trans)
      with True show ?thesis by simp
    next
      case False
      with eq show ?thesis by simp
    qed
  qed
  finally show ?case .
qed

lemma round53_exact: "m \<le> 2 ^ 53 \<Longrightarrow> round53 m = m"
proof (cases "m < 2 ^ 53")
  case True
  then have "bitlen m \<le> 53" by (simp only: bitlen_le)
  then show ?thesis by (simp add: round53_def)
next
  case False
  assume "m \<le> 2 ^ 53"
  with False have m: "m = 9007199254740992" by simp
  have "\<not> bitlen (9007199254740992 :: int) \<le> 53" unfolding bitlen_le by simp
  moreover have "bitlen (9007199254740992 :: int) \<le> 54" unfolding bitlen_le by simp
  ultimately have b: "bitlen (9007199254740992 :: int) = 54" by simp
  show ?thesis unfolding m round53_def b Let_def by simp
qed

lemma double_abs_diff_exact:
  "\<bar>a - b\<bar> \<le> 2 ^ 53 \<Longrightarrow> double_abs_diff a b = \<bar>a - b\<bar>"
proof -
  assume le: "\<bar>a - b\<bar> \<le> 2 ^ 53"
  then have "round53 \<bar>a - b\<bar> = \<bar>a - b\<bar>" by (rule round53_exact)
  moreover have "(2::int) ^ 53 \<le> 2 ^ 1024" by (rule power_increasing) simp_all
  ultimately show ?thesis using le by (simp add: double_abs_diff_def)
qed

text \<open>
  Rounding at work: \<open>2 ^ 53 + 1\<close> and \<open>2 ^ 53 + 3\<close> are half way between two doubles and go
  to the even one, \<open>2 ^ 54 - 1\<close> goes up to \<open>2 ^ 54\<close>, and a difference beyond the largest
  double is \<^verbatim>\<open>Infinity\<close>.
\<close>

lemma round53_examples:
  "round53 9007199254740993 = 9007199254740992"
  "round53 9007199254740995 = 9007199254740996"
  "round53 18014398509481983 = 18014398509481984"
  "double_abs_diff (2 ^ 1023 + 2 ^ 1000) (- (2 ^ 1023)) = 2 ^ 1024"
  by code_simp+




lemma foldl_closer_mem: "foldl (closer goal) v vs \<in> set (v # vs)"
proof (induction vs arbitrary: v)
  case Nil
  show ?case by simp
next
  case (Cons x xs)
  have "foldl (closer goal) (closer goal v x) xs \<in> set (closer goal v x # xs)"
    by (rule Cons.IH)
  moreover have "closer goal v x = v \<or> closer goal v x = x" by (simp add: closer_def)
  ultimately show ?case by auto
qed

lemma Closest_mem: "vs \<noteq> [] \<Longrightarrow> \<exists>v\<in>set vs. Closest vs goal = Inr v"
proof (cases vs)
  case Nil
  assume "vs \<noteq> []"
  with Nil show ?thesis by simp
next
  case (Cons x xs)
  then show ?thesis using foldl_closer_mem [of goal x xs] by simp
qed





section \<open>The child with the closest index\<close>

lemma findChildWithClosestIndex_no_children:
  "children n = None \<Longrightarrow> findChildWithClosestIndex n idx rng = Inr None"
  by (simp add: findChildWithClosestIndex_def)

lemma obj_get_mem: "obj_get cs k = Some c \<Longrightarrow> (k, c) \<in> set cs"
  by (simp add: obj_get_def map_of_SomeD)

lemma candidateIndexes_mem:
  "(k, c) \<in> set cs \<Longrightarrow> isNodeFocusable c \<or> hasChildren c \<Longrightarrow> index c \<in> set (candidateIndexes cs)"
  by (force simp: candidateIndexes_def)

lemma candidateIndexes_memD:
  "v \<in> set (candidateIndexes cs) \<Longrightarrow> \<exists>k c. (k, c) \<in> set cs \<and> index c = v"
  by (auto simp: candidateIndexes_def)

lemma activeChildInRange_candidate:
  assumes "activeChildInRange (obj_get cs k) rng"
  shows "candidateIndexes cs \<noteq> []"
proof -
  from assms obtain c where c: "obj_get cs k = Some c" "isNodeFocusable c"
    by (auto simp: activeChildInRange_def split: option.splits)
  from c(1) have "(k, c) \<in> set cs" by (rule obj_get_mem)
  then have "index c \<in> set (candidateIndexes cs)"
    using c(2) by (simp add: candidateIndexes_mem)
  then show ?thesis by auto
qed

lemma findChildWithClosestIndex_no_candidates:
  assumes "children n = Some cs" and "candidateIndexes cs = []"
  shows "findChildWithClosestIndex n idx rng = Inr None"
proof -
  have "\<not> activeChildInRange (obj_get cs (jsstr (activeChild n))) rng"
    using assms(2) activeChildInRange_candidate by blast
  with assms show ?thesis by (simp add: findChildWithClosestIndex_def)
qed

lemma findChildWithIndex_found:
  assumes "children n = Some cs" and "(k, c) \<in> set cs" and "index c = v"
    and "[] \<notin> set (obj_keys cs)"
  shows "\<exists>c'. findChildWithIndex n v = Some c' \<and> index c' = v \<and> c' \<in> snd ` set cs"
proof -
  let ?P = "\<lambda>(childId, childNode). index childNode = v"
  from assms(2,3) have "\<exists>x\<in>set cs. ?P x" by auto
  then obtain k' c' where f: "find ?P cs = Some (k', c')"
    by (cases "find ?P cs") (auto simp: find_None_iff)
  then have mem: "(k', c') \<in> set cs" and idx: "index c' = v"
    by (auto simp: find_Some_iff in_set_conv_nth)
  from mem assms(4) have "k' \<noteq> []" by (force simp: obj_keys_def)
  with f assms(1) idx mem show ?thesis by (force simp: findChildWithIndex_def)
qed

lemma findChildWithClosestIndex_no_error:
  "\<exists>res. findChildWithClosestIndex n idx rng = Inr res"
proof (cases "children n")
  case None
  then show ?thesis by (simp add: findChildWithClosestIndex_def)
next
  case (Some cs)
  show ?thesis
  proof (cases "candidateIndexes cs")
    case Nil
    with Some show ?thesis using findChildWithClosestIndex_no_candidates by blast
  next
    case (Cons x xs)
    then show ?thesis using Some by (simp add: findChildWithClosestIndex_def Let_def)
  qed
qed

lemma findChildWithClosestIndex_nonnull:
  assumes "children n = Some cs"
    and "\<not> activeChildInRange (obj_get cs (jsstr (activeChild n))) rng"
    and "candidateIndexes cs \<noteq> []"
    and "[] \<notin> set (obj_keys cs)"
  shows "\<exists>c. findChildWithClosestIndex n idx rng = Inr (Some c) \<and> c \<in> snd ` set cs"
proof -
  from assms(3) obtain v where v: "v \<in> set (candidateIndexes cs)"
    "Closest (candidateIndexes cs) idx = Inr v"
    using Closest_mem by blast
  then obtain k c where "(k, c) \<in> set cs" "index c = v"
    using candidateIndexes_memD by blast
  with assms(1,4) obtain c' where "findChildWithIndex n v = Some c'" "c' \<in> snd ` set cs"
    using findChildWithIndex_found by blast
  with assms(1,2,3) v(2) show ?thesis
    by (simp add: findChildWithClosestIndex_def Let_def)
qed

lemma find_first_match:
  "\<forall>x\<in>set pre. \<not> P x \<Longrightarrow> P y \<Longrightarrow> find P (pre @ y # post) = Some y"
  by (induction pre) simp_all

text \<open>
  Claim C1. When the node has children, an index range is given, \<^verbatim>\<open>node.activeChild\<close>
  names a child whose index lies in the range, bounds included, and that child is
  focusable, \<^verbatim>\<open>_findChildWithClosestIndex\<close> returns that child, whatever the target index
  and the other children are. In the example the nearest index would pick the other child.
\<close>

theorem findChildWithClosestIndex_shortcut:
  assumes "children n = Some cs"
    and "obj_get cs (jsstr (activeChild n)) = Some c"
    and "index c = Some i"
    and "arr_get r 0 = Some lo" and "arr_get r 1 = Some hi"
    and "lo \<le> i" and "i \<le> hi"
    and "isNodeFocusable c"
  shows "findChildWithClosestIndex n idx (Some r) = Inr (Some c)"
  using assms by (simp add: findChildWithClosestIndex_def activeChildInRange_def)

theorem findChildWithClosestIndex_shortcut_witness:
  "children exShortcut
     = Some [(''a'', withIndex 0 (withSelectAction (JRef 0) emptyNode)),
             (''b'', withIndex 5 (withSelectAction (JRef 0) emptyNode))]
   \<and> obj_get [(''a'', withIndex 0 (withSelectAction (JRef 0) emptyNode)),
              (''b'', withIndex 5 (withSelectAction (JRef 0) emptyNode))]
        (jsstr (activeChild exShortcut))
       = Some (withIndex 0 (withSelectAction (JRef 0) emptyNode))
   \<and> index (withIndex 0 (withSelectAction (JRef 0) emptyNode)) = Some 0
   \<and> arr_get [0, 2 :: int] 0 = Some 0 \<and> arr_get [0, 2 :: int] 1 = Some 2
   \<and> isNodeFocusable (withIndex 0 (withSelectAction (JRef 0) emptyNode))
   \<and> findChildWithClosestIndex exShortcut 5 (Some [0, 2])
       = Inr (Some (withIndex 0 (withSelectAction (JRef 0) emptyNode)))
   \<and> findChildWithClosestIndex exShortcut 5 None
       = Inr (Some (withIndex 5 (withSelectAction (JRef 0) emptyNode)))"
proof -
  let ?a = "withIndex 0 (withSelectAction (JRef 0) emptyNode)"
  let ?b = "withIndex 5 (withSelectAction (JRef 0) emptyNode)"
  have h1: "children exShortcut = Some [(''a'', ?a), (''b'', ?b)]"
    by (simp add: exShortcut_def with_defs)
  have h2: "obj_get [(''a'', ?a), (''b'', ?b)] (jsstr (activeChild exShortcut)) = Some ?a"
    by (simp add: exShortcut_def with_defs obj_get_def)
  have h3: "index ?a = Some 0" by (simp add: with_defs)
  have h4: "arr_get [0, 2 :: int] 0 = Some 0" "arr_get [0, 2 :: int] 1 = Some 2"
    by (simp_all add: arr_get_def)
  have h5: "isNodeFocusable ?a" by (simp add: isNodeFocusable_def with_defs)
  have other: "findChildWithClosestIndex exShortcut 5 None = Inr (Some ?b)"
    by (simp add: findChildWithClosestIndex_def findChildWithIndex_def activeChildInRange_def
        candidateIndexes_def isNodeFocusable_def hasChildren_def closer_def exShortcut_def
        with_defs obj_get_def double_abs_diff_exact)
  from findChildWithClosestIndex_shortcut [OF h1 h2 h3 h4, of 5] h5
  have "findChildWithClosestIndex exShortcut 5 (Some [0, 2]) = Inr (Some ?a)" by simp
  with h1 h2 h3 h4 h5 other show ?thesis by blast
qed

text \<open>
  Claim C3. \<^verbatim>\<open>_findChildWithClosestIndex\<close> returns \<^verbatim>\<open>null\<close> without raising when the node has
  no children and when no child is a candidate
  (\<open>findChildWithClosestIndex_no_children\<close>, \<open>findChildWithClosestIndex_no_candidates\<close>),
  and returns a child in the other cases without the shortcut when no key of
  \<^verbatim>\<open>children\<close> is the empty string (\<open>findChildWithClosestIndex_nonnull\<close>). A child under the
  empty key is found by \<^verbatim>\<open>_findChildWithIndex\<close> and then dropped by the truthiness test on
  its key: on \<open>exEmptyKey\<close> the candidate set is not empty, the shortcut does not apply, and
  the result is \<^verbatim>\<open>null\<close>.
\<close>

theorem findChildWithClosestIndex_empty_key:
  "children exEmptyKey = Some [('''', withIndex 0 (withSelectAction (JRef 0) emptyNode))]
   \<and> candidateIndexes [('''', withIndex 0 (withSelectAction (JRef 0) emptyNode))] = [Some 0]
   \<and> activeChildInRange
        (obj_get [('''', withIndex 0 (withSelectAction (JRef 0) emptyNode))]
           (jsstr (activeChild exEmptyKey))) None = False
   \<and> findChildWithClosestIndex exEmptyKey 0 None = Inr None"
  by (simp add: findChildWithClosestIndex_def findChildWithIndex_def activeChildInRange_def
      candidateIndexes_def isNodeFocusable_def hasChildren_def exEmptyKey_def with_defs obj_get_def)

text \<open>
  Claim C8. \<open>Closest\<close> on a non-empty sequence returns one of its elements; on the empty
  sequence it raises; \<^verbatim>\<open>_findChildWithClosestIndex\<close> never raises, since it returns before
  calling \<open>Closest\<close> when there is no candidate.
\<close>

theorem Closest_total_on_nonempty:
  "(vs \<noteq> [] \<longrightarrow> (\<exists>v\<in>set vs. Closest vs goal = Inr v))
   \<and> Closest [] goal = Inl TypeError
   \<and> (\<exists>res. findChildWithClosestIndex n idx rng = Inr res)"
  using Closest_mem [of vs goal] findChildWithClosestIndex_no_error [of n idx rng] by simp

theorem Closest_total_on_nonempty_witness:
  "[Some 1, None, Some 3] \<noteq> []
   \<and> (\<exists>v\<in>set [Some 1, None, Some 3]. Closest [Some 1, None, Some 3] 2 = Inr v)
   \<and> Closest [] 2 = Inl TypeError
   \<and> (\<exists>res. findChildWithClosestIndex exOneChild 0 None = Inr res)"
  using Closest_total_on_nonempty [of "[Some 1, None, Some 3]" 2 exOneChild 0 None] by simp

text \<open>
  Claim C9. The child returned for the closest candidate index is the first of all the
  children with that index, candidate or not: when a child that is neither focusable nor has
  children carries the chosen index, under a non-empty key, and no child before it does, that
  child is returned. Such an input exists.
\<close>

theorem findChildWithClosestIndex_returns_non_candidate:
  "(children n = Some (pre @ (k, c) # post)
      \<and> \<not> activeChildInRange (obj_get (pre @ (k, c) # post) (jsstr (activeChild n))) rng
      \<and> Closest (candidateIndexes (pre @ (k, c) # post)) idx = Inr (index c)
      \<and> (\<forall>(k', c')\<in>set pre. index c' \<noteq> index c)
      \<and> k \<noteq> [] \<and> \<not> isNodeFocusable c \<and> \<not> hasChildren c
    \<longrightarrow> findChildWithClosestIndex n idx rng = Inr (Some c))
   \<and> (\<exists>m i d. findChildWithClosestIndex m i None = Inr (Some d)
         \<and> \<not> isNodeFocusable d \<and> \<not> hasChildren d)"
proof -
  have general: "findChildWithClosestIndex n idx rng = Inr (Some c)"
    if ch: "children n = Some (pre @ (k, c) # post)"
      and ns: "\<not> activeChildInRange (obj_get (pre @ (k, c) # post) (jsstr (activeChild n))) rng"
      and cl: "Closest (candidateIndexes (pre @ (k, c) # post)) idx = Inr (index c)"
      and first: "\<forall>(k', c')\<in>set pre. index c' \<noteq> index c"
      and k: "k \<noteq> []"
  proof -
    let ?P = "\<lambda>(childId, childNode). index childNode = index c"
    from first have "\<forall>x\<in>set pre. \<not> ?P x" by auto
    then have "find ?P (pre @ (k, c) # post) = Some (k, c)"
      by (rule find_first_match) simp
    with ch k have fi: "findChildWithIndex n (index c) = Some c"
      by (simp add: findChildWithIndex_def)
    from cl have "candidateIndexes (pre @ (k, c) # post) \<noteq> []" by auto
    with ch ns cl fi show ?thesis
      by (simp add: findChildWithClosestIndex_def Let_def)
  qed
  have "findChildWithClosestIndex exSharedIndex 0 None = Inr (Some (withIndex 0 emptyNode))"
    by (simp add: findChildWithClosestIndex_def findChildWithIndex_def activeChildInRange_def
      candidateIndexes_def isNodeFocusable_def hasChildren_def exSharedIndex_def with_defs
      obj_get_def)
  moreover have "\<not> isNodeFocusable (withIndex 0 emptyNode)"
    by (simp add: isNodeFocusable_def with_defs)
  moreover have "\<not> hasChildren (withIndex 0 emptyNode)"
    by (simp add: hasChildren_def with_defs)
  ultimately have "\<exists>m i d. findChildWithClosestIndex m i None = Inr (Some d)
         \<and> \<not> isNodeFocusable d \<and> \<not> hasChildren d"
    by blast
  with general show ?thesis by blast
qed

theorem findChildWithClosestIndex_returns_non_candidate_witness:
  "children exSharedIndex
     = Some ([] @ (''a'', withIndex 0 emptyNode)
               # [(''b'', withIndex 0 (withSelectAction (JRef 0) emptyNode))])
   \<and> candidateIndexes ([] @ (''a'', withIndex 0 emptyNode)
               # [(''b'', withIndex 0 (withSelectAction (JRef 0) emptyNode))]) = [Some 0]
   \<and> Closest [Some 0] 0 = Inr (index (withIndex 0 emptyNode))
   \<and> ''a'' \<noteq> []
   \<and> \<not> isNodeFocusable (withIndex 0 emptyNode) \<and> \<not> hasChildren (withIndex 0 emptyNode)
   \<and> isNodeFocusable (withIndex 0 (withSelectAction (JRef 0) emptyNode))
   \<and> findChildWithClosestIndex exSharedIndex 0 None = Inr (Some (withIndex 0 emptyNode))"
proof -
  let ?a = "withIndex 0 emptyNode"
  let ?b = "withIndex 0 (withSelectAction (JRef 0) emptyNode)"
  have h1: "children exSharedIndex = Some ([] @ (''a'', ?a) # [(''b'', ?b)])"
    by (simp add: exSharedIndex_def with_defs)
  have h2: "\<not> activeChildInRange
      (obj_get ([] @ (''a'', ?a) # [(''b'', ?b)]) (jsstr (activeChild exSharedIndex))) None"
    by (simp add: activeChildInRange_def)
  have ci: "candidateIndexes ([] @ (''a'', ?a) # [(''b'', ?b)]) = [Some 0]"
    by (simp add: candidateIndexes_def isNodeFocusable_def hasChildren_def with_defs)
  have h3: "Closest (candidateIndexes ([] @ (''a'', ?a) # [(''b'', ?b)])) 0 = Inr (index ?a)"
    unfolding ci by (simp add: with_defs)
  have h5: "\<not> isNodeFocusable ?a" "\<not> hasChildren ?a" "isNodeFocusable ?b"
    by (simp_all add: isNodeFocusable_def hasChildren_def with_defs)
  from findChildWithClosestIndex_returns_non_candidate
    [of exSharedIndex "[]" "''a''" ?a "[(''b'', ?b)]" None 0] h1 h2 h3 h5
  have "findChildWithClosestIndex exSharedIndex 0 None = Inr (Some ?a)" by simp
  with h1 ci h3 h5 show ?thesis by simp
qed

section \<open>Membership in the tree\<close>

lemma isNodeInTree_visit_eq:
  "isNodeInTree_visit nodeId t st
     = (fst st \<or> nodeId \<in> set (preorderKeys t), snd st @ preorderKeys t)"
proof (induction nodeId t st rule: isNodeInTree_visit.induct)
  case (1 nodeId st)
  show ?case by simp
next
  case (2 nodeId treeProperty n rest st)
  show ?case
  proof (cases "children n")
    case None
    with 2 show ?thesis by (auto simp: Let_def)
  next
    case (Some cs)
    with 2 show ?thesis by (auto simp: Let_def)
  qed
qed

lemma isNodeInTree_walk_eq:
  "isNodeInTree_walk nodeId t b = (b \<or> nodeId \<in> set (preorderKeys t))"
proof (induction nodeId t b rule: isNodeInTree_walk.induct)
  case (1 nodeId nodeInTree)
  show ?case by simp
next
  case (2 nodeId treeProperty n rest nodeInTree)
  show ?case
  proof (cases "children n")
    case None
    with 2 show ?thesis by (auto simp: Let_def)
  next
    case (Some cs)
    with 2 show ?thesis by (auto simp: Let_def)
  qed
qed

text \<open>
  Claim C5, as stated, says that the walk stops descending into children once the match has
  been set. It does not: for the id \<^verbatim>\<open>a\<close> in \<^verbatim>\<open>{a: {children: {b: {}}}}\<close> the match is set at
  \<^verbatim>\<open>a\<close>, and the walk still descends into the children of \<^verbatim>\<open>a\<close> and visits \<^verbatim>\<open>b\<close>.
\<close>

theorem isNodeInTree_descends_after_match:
  "isNodeInTree_visit ''a'' exNested (False, []) = (True, [''a'', ''b''])
   \<and> isNodeInTree_visit ''a'' [(''a'', emptyNode)] (False, []) = (True, [''a''])
   \<and> isNodeInTree_visit ''a'' [(''b'', emptyNode)] (True, [''a'']) = (True, [''a'', ''b''])"
  by (simp add: exNested_def with_defs)

text \<open>
  Claim C5, amended. \<open>isNodeInTree\<close> is true exactly when some key of the recursive tree
  equals the id, and the walk visits every key of the recursive tree in depth-first
  pre-order whatever the id is: neither the iteration over the keys of an object nor the
  descent into children stops after a match. \<^verbatim>\<open>isNodeInTree("b", {a: {children: {b: {}}}})\<close>
  is true and \<^verbatim>\<open>isNodeInTree("c", {a: {children: {b: {}}}})\<close> is false.
\<close>

theorem isNodeInTree_visits_every_key:
  "isNodeInTree nodeId t = (nodeId \<in> set (preorderKeys t))
   \<and> isNodeInTree_visit nodeId t (False, []) = (isNodeInTree nodeId t, preorderKeys t)
   \<and> isNodeInTree ''b'' exNested = True
   \<and> isNodeInTree ''c'' exNested = False"
proof -
  have "isNodeInTree nodeId t = (nodeId \<in> set (preorderKeys t))"
    by (simp add: isNodeInTree_def isNodeInTree_walk_eq)
  moreover have "isNodeInTree_visit nodeId t (False, []) = (isNodeInTree nodeId t, preorderKeys t)"
    by (simp add: isNodeInTree_def isNodeInTree_walk_eq isNodeInTree_visit_eq)
  moreover have "isNodeInTree ''b'' exNested = True" "isNodeInTree ''c'' exNested = False"
    by (simp_all add: isNodeInTree_def exNested_def with_defs)
  ultimately show ?thesis by simp
qed

theorem isNodeInTree_visits_every_key_witness:
  "isNodeInTree ''a'' exNested
   \<and> isNodeInTree_visit ''a'' exNested (False, []) = (True, [''a'', ''b''])
   \<and> preorderKeys exNested = [''a'', ''b'']"
proof -
  have "preorderKeys exNested = [''a'', ''b'']" by (simp add: exNested_def with_defs)
  with isNodeInTree_visits_every_key [of "''a''" exNested] show ?thesis by simp
qed

section \<open>Flattening the tree\<close>

lemma js_or_cases:
  "js_or a b = (case a of Some s \<Rightarrow> (if s \<noteq> [] then Some s else b) | None \<Rightarrow> b)"
  by (cases a) simp_all

lemma getNodesFromTree_walk_eq:
  "getNodesFromTree_walk t p nodes = nodes @ map flatRecordOf (preorderNodes t p)"
proof (induction t p nodes rule: getNodesFromTree_walk.induct)
  case (1 parent' nodes)
  show ?case by simp
next
  case (2 treeProperty n rest parent' nodes)
  show ?case
  proof (cases "children n")
    case None
    with 2 show ?thesis by (simp add: Let_def flatRecordOf_def js_or_cases)
  next
    case (Some cs)
    with 2 show ?thesis by (simp add: Let_def flatRecordOf_def js_or_cases)
  qed
qed

text \<open>
  Claim C4, as stated, gives a record the node's own \<^verbatim>\<open>parent\<close> whenever that field is
  present. In \<^verbatim>\<open>{a: {children: {b: {parent: ""}}}}\<close> the node \<^verbatim>\<open>b\<close> has the \<^verbatim>\<open>parent\<close>
  field \<^verbatim>\<open>""\<close>, and its record has the parent \<^verbatim>\<open>a\<close>.
\<close>

theorem getNodesFromTree_empty_parent:
  "getNodesFromTree exEmptyParent
     = [withId ''a'' emptyNode, withParent ''a'' (withId ''b'' emptyNode)]
   \<and> parent (withParent '''' emptyNode) = Some ''''"
  by (simp add: getNodesFromTree_def exEmptyParent_def flatRecord_def with_defs)

text \<open>
  Claim C4, amended. \<open>getNodesFromTree\<close> produces one record per node, in depth-first
  pre-order; a record copies the fields of its node, has the key of the node as \<^verbatim>\<open>id\<close>, has
  no \<^verbatim>\<open>children\<close>, and has as \<^verbatim>\<open>parent\<close> the node's own \<^verbatim>\<open>parent\<close> when that is present and
  not the empty string, otherwise the key of the node above it in the walk (\<^verbatim>\<open>undefined\<close>
  at the root level). \<^verbatim>\<open>getNodesFromTree({a: {index: 0, children: {b: {index: 0}}}})\<close> is
  \<^verbatim>\<open>{id: "a", parent: undefined, index: 0}\<close> then \<^verbatim>\<open>{id: "b", parent: "a", index: 0}\<close>.
\<close>

theorem getNodesFromTree_preorder:
  "getNodesFromTree t = map flatRecordOf (preorderNodes t None)
   \<and> id_of (flatRecordOf (k, sp, n)) = Some k
   \<and> children (flatRecordOf (k, sp, n)) = None
   \<and> parent (flatRecordOf (k, sp, n))
       = (case parent n of Some s \<Rightarrow> (if s \<noteq> [] then Some s else sp) | None \<Rightarrow> sp)
   \<and> index (flatRecordOf (k, sp, n)) = index n
   \<and> indexRange (flatRecordOf (k, sp, n)) = indexRange n
   \<and> selectAction (flatRecordOf (k, sp, n)) = selectAction n
   \<and> isFocusable (flatRecordOf (k, sp, n)) = isFocusable n
   \<and> isWrapping (flatRecordOf (k, sp, n)) = isWrapping n
   \<and> orientation (flatRecordOf (k, sp, n)) = orientation n
   \<and> isIndexAlign (flatRecordOf (k, sp, n)) = isIndexAlign n
   \<and> onLeave (flatRecordOf (k, sp, n)) = onLeave n
   \<and> onEnter (flatRecordOf (k, sp, n)) = onEnter n
   \<and> activeChild (flatRecordOf (k, sp, n)) = activeChild n
   \<and> getNodesFromTree exIndexed
       = [withId ''a'' (withIndex 0 emptyNode), withParent ''a'' (withId ''b'' (withIndex 0 emptyNode))]"
proof -
  have "getNodesFromTree t = map flatRecordOf (preorderNodes t None)"
    by (simp add: getNodesFromTree_def getNodesFromTree_walk_eq)
  moreover have "getNodesFromTree exIndexed
       = [withId ''a'' (withIndex 0 emptyNode), withParent ''a'' (withId ''b'' (withIndex 0 emptyNode))]"
    by (simp add: getNodesFromTree_def exIndexed_def flatRecord_def with_defs)
  ultimately show ?thesis by (simp add: flatRecordOf_def flatRecord_def)
qed

theorem getNodesFromTree_preorder_witness:
  "preorderNodes exEmptyParent None
     = [(''a'', None, withChildren [(''b'', withParent '''' emptyNode)] emptyNode),
        (''b'', Some ''a'', withParent '''' emptyNode)]
   \<and> getNodesFromTree exEmptyParent
     = [flatRecordOf (''a'', None, withChildren [(''b'', withParent '''' emptyNode)] emptyNode),
        flatRecordOf (''b'', Some ''a'', withParent '''' emptyNode)]
   \<and> parent (flatRecordOf (''b'', Some ''a'', withParent '''' emptyNode)) = Some ''a''"
proof -
  have p: "preorderNodes exEmptyParent None
     = [(''a'', None, withChildren [(''b'', withParent '''' emptyNode)] emptyNode),
        (''b'', Some ''a'', withParent '''' emptyNode)]"
    by (simp add: exEmptyParent_def with_defs)
  have "parent (withParent '''' emptyNode) = Some ''''" by (simp add: with_defs)
  with p getNodesFromTree_preorder [of exEmptyParent "''b''" "Some ''a''" "withParent '''' emptyNode"]
  show ?thesis by simp
qed

end
